theory Spec2Isabelle
  imports Main "HOL-Library.Sublist"
begin

section \<open>Byte slices over an explicit store\<close>

text \<open>
  Package \<open>binary\<close> works on Go byte slices. A slice is a view (offset, length,
  capacity) of an underlying array, and two slices may share one array, so the
  store is explicit: a heap is the list of the arrays allocated so far and an
  array's address is its position in that list. Allocation appends an array.
\<close>

type_synonym byte = char

type_synonym heap = "byte list list"

datatype slice = NilSlice | Slice nat nat nat nat
  \<comment> \<open>\<open>Slice a off n c\<close>: array \<open>a\<close>, first element \<open>off\<close>, length \<open>n\<close>, capacity \<open>c\<close>\<close>

text \<open>Go's builtin \<open>len\<close>; the nil slice has length 0.\<close>

fun len :: "slice \<Rightarrow> nat" where
  "len NilSlice = 0"
| "len (Slice a off n c) = n"

text \<open>The bytes a slice shows in a heap.\<close>

fun bytes_of :: "heap \<Rightarrow> slice \<Rightarrow> byte list" where
  "bytes_of h NilSlice = []"
| "bytes_of h (Slice a off n c) = take n (drop off (h ! a))"

text \<open>
  What Go's memory safety guarantees of every slice value: its array is
  allocated and its window lies inside the array.
\<close>

fun valid :: "heap \<Rightarrow> slice \<Rightarrow> bool" where
  "valid h NilSlice = True"
| "valid h (Slice a off n c) = (a < length h \<and> n \<le> c \<and> off + c \<le> length (h ! a))"

text \<open>
  The seven embedded files. Their bytes are fixed when the program is built and
  are not part of the source text, so they are parameters: each package
  variable is a slice of the store.
\<close>

record embedded =
  IpxeEFI :: slice
  Undionly :: slice
  SNP :: slice
  IpxeISO :: slice
  DTBRock5b :: slice
  DTBOrangePi3b :: slice
  DTBOdroidHC4 :: slice

datatype panic = SliceBoundsOutOfRange | IndexOutOfRange

datatype error = ErrPatchTooLong

text \<open>\<open>make([]byte, n)\<close>: a fresh zeroed array of \<open>n\<close> bytes and the slice of all of it.\<close>

definition make :: "heap \<Rightarrow> nat \<Rightarrow> heap \<times> slice" where
  "make h n = (h @ [replicate n (CHR 0x00)], Slice (length h) 0 n n)"

text \<open>
  Go's builtin \<open>copy(dst, src)\<close> writes the first \<open>min(len(dst), len(src))\<close> bytes
  of \<open>src\<close> to the front of \<open>dst\<close> and returns that number; the source is read
  before the destination is written (overlap is allowed), so the source is
  passed as the bytes it shows.
\<close>

fun copy :: "heap \<Rightarrow> slice \<Rightarrow> byte list \<Rightarrow> heap \<times> nat" where
  "copy h NilSlice src = (h, 0)"
| "copy h (Slice a off n c) src =
     (let k = min n (length src)
      in (h[a := take off (h ! a) @ take k src @ drop (off + k) (h ! a)], k))"

text \<open>
  The slice expression \<open>s[i:]\<close>: a run-time panic unless \<open>0 \<le> i \<le> len(s)\<close>.
\<close>

fun slice_from :: "slice \<Rightarrow> int \<Rightarrow> panic + slice" where
  "slice_from NilSlice i = (if i = 0 then Inr NilSlice else Inl SliceBoundsOutOfRange)"
| "slice_from (Slice a off n c) i =
     (if i < 0 \<or> int n < i then Inl SliceBoundsOutOfRange
      else Inr (Slice a (off + nat i) (n - nat i) (c - nat i)))"

text \<open>The assignment \<open>s[k] = b\<close>: a run-time panic unless \<open>k < len(s)\<close>.\<close>

fun set_index :: "heap \<Rightarrow> slice \<Rightarrow> nat \<Rightarrow> byte \<Rightarrow> panic + heap" where
  "set_index h NilSlice k b = Inl IndexOutOfRange"
| "set_index h (Slice a off n c) k b =
     (if k < n then Inr (h[a := (h ! a)[off + k := b]]) else Inl IndexOutOfRange)"

section \<open>The standard library's \<open>bytes.Index\<close> and \<open>bytes.Repeat\<close>\<close>

text \<open>
  \<open>bytes.Index(s, sep)\<close> is the index of the first instance of \<open>sep\<close> in \<open>s\<close>,
  or \<open>-1\<close> when \<open>sep\<close> is not present in \<open>s\<close>: a scan from the left.
\<close>

fun Index :: "byte list \<Rightarrow> byte list \<Rightarrow> int" where
  "Index [] sep = (if sep = [] then 0 else - 1)"
| "Index (b # s) sep =
     (if take (length sep) (b # s) = sep then 0
      else (let r = Index s sep in if r = - 1 then - 1 else r + 1))"

text \<open>\<open>bytes.Repeat(b, count)\<close>: \<open>count\<close> copies of \<open>b\<close>, one after the other.\<close>

definition Repeat :: "byte list \<Rightarrow> nat \<Rightarrow> byte list" where
  "Repeat b count = concat (replicate count b)"

text \<open>\<open>sep\<close> stands in \<open>s\<close> at offset \<open>j\<close>.\<close>

definition occurs_at :: "byte list \<Rightarrow> byte list \<Rightarrow> nat \<Rightarrow> bool" where
  "occurs_at s sep j = (j + length sep \<le> length s \<and> take (length sep) (drop j s) = sep)"

text \<open>
  \<open>sep\<close> stands somewhere in \<open>s\<close> (what \<open>bytes.Contains\<close> reports). An
  occurrence starts at an offset of at most \<open>length s\<close>, so the search is
  finite.
\<close>

definition Contains :: "byte list \<Rightarrow> byte list \<Rightarrow> bool" where
  "Contains s sep = list_ex (occurs_at s sep) [0..<Suc (length s)]"

text \<open>The first (leftmost) occurrence of \<open>sep\<close> in \<open>s\<close> is at offset \<open>i\<close>.\<close>

definition first_at :: "byte list \<Rightarrow> byte list \<Rightarrow> nat \<Rightarrow> bool" where
  "first_at s sep i = (occurs_at s sep i \<and> list_all (\<lambda>j. \<not> occurs_at s sep j) [0..<i])"

section \<open>Package \<open>binary\<close>\<close>

text \<open>
  The marker: a raw string literal of two lines, each a \<open>#\<close> and 64 hexadecimal
  digits, with the line feed between them.
\<close>

definition magicString :: "byte list" where
  "magicString =
     ''#a8b7e61f1075c37a793f2f92cee89f7bba00c4a8d7842ce3d40b5889032d8881'' @ [CHR 0x0A] @
     ''#ddd16a4fc4926ecefdfb6941e33c44ed3647133638f5e84021ea44d3152e7f97''"

definition magicStringPadding :: "byte list" where
  "magicStringPadding = Repeat [CHR '' ''] (length magicString)"

text \<open>\<open>Files\<close> is the mapping to the embedded iPXE binaries.\<close>

definition Files :: "embedded \<Rightarrow> (string \<rightharpoonup> slice)" where
  "Files e =
     [''undionly.kpxe'' \<mapsto> Undionly e,
      ''ipxe.efi'' \<mapsto> IpxeEFI e,
      ''snp.efi'' \<mapsto> SNP e,
      ''ipxe.iso'' \<mapsto> IpxeISO e,
      ''rk3588-rock-5b.dtb'' \<mapsto> DTBRock5b e,
      ''rk3566-orangepi-3b.dtb'' \<mapsto> DTBOrangePi3b e,
      ''meson-sm1-odroid-hc4.dtb'' \<mapsto> DTBOdroidHC4 e]"

text \<open>
  \<open>Patch\<close> returns a slice and an error; a run-time panic is the left summand.
  The heap is threaded through: the result heap is the store after the call.
\<close>

definition Patch :: "heap \<Rightarrow> slice \<Rightarrow> slice \<Rightarrow> panic + (heap \<times> slice \<times> error option)" where
  "Patch h content patch =
     (if len patch = 0 then Inr (h, content, None)
      else
        let i = Index (bytes_of h content) magicString in
        if i = - 1 then Inr (h, content, None)
        else if len patch > length magicString then Inr (h, NilSlice, Some ErrPatchTooLong)
        else
          let (h1, dup) = make h (len content);
              (h2, n2) = copy h1 dup (bytes_of h1 content)
          in (case slice_from dup i of
                Inl p \<Rightarrow> Inl p
              | Inr d3 \<Rightarrow>
                  (let (h3, n3) = copy h2 d3 magicStringPadding
                   in (case slice_from dup i of
                         Inl p \<Rightarrow> Inl p
                       | Inr d4 \<Rightarrow>
                           (let (h4, n4) = copy h3 d4 (bytes_of h3 patch)
                            in Inr (h4, dup, None))))))"

text \<open>
  The closed form of what the new array holds when the patching branch is done
  (shown below to be what \<open>Patch\<close> computes): the content with the marker's
  range overwritten by the payload and the padding that is left.
\<close>

definition patched :: "byte list \<Rightarrow> nat \<Rightarrow> byte list \<Rightarrow> byte list" where
  "patched C i P =
     take i C @ P @ replicate (length magicString - length P) (CHR '' '') @
     drop (i + length magicString) C"

section \<open>Properties of the library model\<close>

lemma length_magicString: "length magicString = 131"
  by (simp add: magicString_def)

lemma Index_ge: "- 1 \<le> Index s sep"
  by (induction s) (auto simp: Let_def)

lemma occurs_at_0: "occurs_at s sep 0 \<longleftrightarrow> take (length sep) s = sep"
proof -
  have "take (length sep) s = sep \<Longrightarrow> length sep \<le> length s"
  proof -
    assume "take (length sep) s = sep"
    then have "length (take (length sep) s) = length sep" by simp
    then show ?thesis by simp
  qed
  then show ?thesis by (auto simp: occurs_at_def)
qed

lemma occurs_at_Suc: "occurs_at (b # s) sep (Suc j) \<longleftrightarrow> occurs_at s sep j"
  by (simp add: occurs_at_def)

lemma Index_absent: "Index s sep = - 1 \<longleftrightarrow> (\<forall>j. \<not> occurs_at s sep j)"
proof (induction s)
  case Nil
  show ?case by (auto simp: occurs_at_def)
next
  case (Cons b s)
  have ge: "- 1 \<le> Index s sep" by (rule Index_ge)
  show ?case
  proof (cases "take (length sep) (b # s) = sep")
    case True
    then have "occurs_at (b # s) sep 0" by (simp only: occurs_at_0)
    with True show ?thesis by auto
  next
    case False
    then have n0: "\<not> occurs_at (b # s) sep 0" by (simp only: occurs_at_0) simp
    have "(\<forall>j. \<not> occurs_at (b # s) sep j) \<longleftrightarrow> (\<forall>j. \<not> occurs_at s sep j)"
    proof
      assume "\<forall>j. \<not> occurs_at (b # s) sep j"
      then show "\<forall>j. \<not> occurs_at s sep j" using occurs_at_Suc by blast
    next
      assume a: "\<forall>j. \<not> occurs_at s sep j"
      show "\<forall>j. \<not> occurs_at (b # s) sep j"
      proof
        fix j show "\<not> occurs_at (b # s) sep j"
          using a n0 occurs_at_Suc by (cases j) auto
      qed
    qed
    with False Cons ge show ?thesis by (auto simp: Let_def)
  qed
qed

lemma Index_first:
  "Index s sep = int i \<longleftrightarrow> occurs_at s sep i \<and> (\<forall>j<i. \<not> occurs_at s sep j)"
proof (induction s arbitrary: i)
  case Nil
  show ?case by (auto simp: occurs_at_def)
next
  case (Cons b s)
  have ge: "- 1 \<le> Index s sep" by (rule Index_ge)
  show ?case
  proof (cases "take (length sep) (b # s) = sep")
    case True
    then have o: "occurs_at (b # s) sep 0" by (simp only: occurs_at_0)
    with True show ?thesis by (cases i) auto
  next
    case False
    then have n0: "\<not> occurs_at (b # s) sep 0" by (simp only: occurs_at_0) simp
    show ?thesis
    proof (cases i)
      case 0
      with False n0 ge show ?thesis by (auto simp: Let_def)
    next
      case (Suc k)
      have "Index (b # s) sep = int (Suc k) \<longleftrightarrow> Index s sep = int k"
        using False ge by (auto simp: Let_def)
      also have "\<dots> \<longleftrightarrow> occurs_at s sep k \<and> (\<forall>j<k. \<not> occurs_at s sep j)"
        by (rule Cons.IH)
      also have "\<dots> \<longleftrightarrow> occurs_at (b # s) sep (Suc k) \<and> (\<forall>j<Suc k. \<not> occurs_at (b # s) sep j)"
        using n0 occurs_at_Suc by (auto simp: less_Suc_eq_0_disj)
      finally show ?thesis using Suc by simp
    qed
  qed
qed

lemma first_at_Index: "first_at s sep i \<longleftrightarrow> Index s sep = int i"
  by (auto simp: first_at_def Index_first list_all_iff)

lemma Contains_occurs: "Contains s sep \<longleftrightarrow> (\<exists>j. occurs_at s sep j)"
proof
  assume "Contains s sep"
  then show "\<exists>j. occurs_at s sep j" by (auto simp: Contains_def list_ex_iff)
next
  assume "\<exists>j. occurs_at s sep j"
  then obtain j where j: "occurs_at s sep j" ..
  then have "j \<le> length s" by (simp add: occurs_at_def)
  then have "j \<in> set [0..<Suc (length s)]" by auto
  with j show "Contains s sep" unfolding Contains_def list_ex_iff by blast
qed

lemma Contains_Index: "Contains s sep \<longleftrightarrow> Index s sep \<noteq> - 1"
  by (simp add: Contains_occurs Index_absent)

lemma Index_cases:
  obtains (absent) "Index s sep = - 1" | (found) i where "Index s sep = int i"
proof (cases "Index s sep = - 1")
  case True
  then show ?thesis by (rule absent)
next
  case False
  with Index_ge [of s sep] have "0 \<le> Index s sep" by simp
  then have "Index s sep = int (nat (Index s sep))" by simp
  then show ?thesis by (rule found)
qed

section \<open>The patching branch\<close>

lemma Repeat_single: "Repeat [b] n = replicate n b"
  by (induction n) (simp_all add: Repeat_def)

lemma length_bytes_of: "valid h s \<Longrightarrow> length (bytes_of h s) = len s"
  by (cases s) auto

lemma bytes_of_append: "valid h s \<Longrightarrow> bytes_of (h @ g) s = bytes_of h s"
  by (cases s) (auto simp: nth_append)

lemma occurs_at_bound: "occurs_at s sep j \<Longrightarrow> j + length sep \<le> length s"
  by (simp add: occurs_at_def)

lemma copy_last:
  "length src \<le> n \<Longrightarrow>
   copy (h @ [A]) (Slice (length h) off n c) src =
     (h @ [take off A @ src @ drop (off + length src) A], length src)"
  by (simp add: min_absorb2 Let_def)

lemma Patch_patching:
  assumes vc: "valid h content" and vp: "valid h patch"
    and ne: "len patch \<noteq> 0" and le: "len patch \<le> length magicString"
    and ix: "Index (bytes_of h content) magicString = int i"
  shows "Patch h content patch =
           Inr (h @ [patched (bytes_of h content) i (bytes_of h patch)],
                Slice (length h) 0 (len content) (len content), None)"
proof -
  let ?C = "bytes_of h content" and ?P = "bytes_of h patch"
  let ?n = "len content" and ?a = "length h" and ?m = "length magicString"
  have lc: "length ?C = ?n" using vc by (rule length_bytes_of)
  have lp: "length ?P = len patch" using vp by (rule length_bytes_of)
  have "occurs_at ?C magicString i" using ix by (simp add: Index_first)
  then have bound: "i + ?m \<le> ?n" using lc by (simp add: occurs_at_def)
  have mk: "make h ?n = (h @ [replicate ?n (CHR 0x00)], Slice ?a 0 ?n ?n)"
    by (simp add: make_def)
  have c2: "copy (h @ [replicate ?n (CHR 0x00)]) (Slice ?a 0 ?n ?n)
              (bytes_of (h @ [replicate ?n (CHR 0x00)]) content) = (h @ [?C], ?n)"
    using vc lc by (simp add: bytes_of_append copy_last del: copy.simps)
  have s3: "slice_from (Slice ?a 0 ?n ?n) (int i) = Inr (Slice ?a i (?n - i) (?n - i))"
    using bound by simp
  let ?D3 = "take i ?C @ replicate ?m (CHR '' '') @ drop (i + ?m) ?C"
  have c3: "copy (h @ [?C]) (Slice ?a i (?n - i) (?n - i)) magicStringPadding = (h @ [?D3], ?m)"
    using bound lc by (simp add: Repeat_single magicStringPadding_def copy_last del: copy.simps)
  have pv: "bytes_of (h @ [?D3]) patch = ?P" using vp by (rule bytes_of_append)
  have tk: "take i ?D3 = take i ?C" using bound lc by simp
  have dr: "drop (i + len patch) ?D3 =
              replicate (?m - len patch) (CHR '' '') @ drop (i + ?m) ?C"
    using bound lc le by (simp add: min_def)
  have c4: "copy (h @ [?D3]) (Slice ?a i (?n - i) (?n - i)) ?P =
              (h @ [patched ?C i ?P], len patch)"
    using bound le lp tk dr by (simp add: patched_def copy_last del: copy.simps)
  show ?thesis
    using ne le ix mk c2 s3 c3 c4 pv by (simp add: Patch_def)
qed

section \<open>The outcomes that change nothing\<close>

text \<open>
  C3. Whatever the content, a call with an empty payload returns the content
  slice itself with no error, and the store is the one it was given: nothing is
  allocated and nothing is written.
\<close>

theorem Patch_empty_patch:
  "len patch = 0 \<Longrightarrow> Patch h content patch = Inr (h, content, None)"
  by (simp add: Patch_def)

theorem Patch_empty_patch_witness:
  "len (Slice 1 0 0 5) = 0 \<and>
   Patch [''ab'' @ magicString @ ''cd'', ''hello''] (Slice 0 0 135 135) (Slice 1 0 0 5) =
     Inr ([''ab'' @ magicString @ ''cd'', ''hello''], Slice 0 0 135 135, None) \<and>
   bytes_of [''ab'' @ magicString @ ''cd'', ''hello''] (Slice 0 0 135 135) =
     ''ab'' @ magicString @ ''cd''"
  using Patch_empty_patch [of "Slice 1 0 0 5" "[''ab'' @ magicString @ ''cd'', ''hello'']" "Slice 0 0 135 135"]
  by (simp add: length_magicString)

text \<open>
  C2. When the content contains the marker and the payload is longer than the
  marker, the call returns the nil slice and \<open>ErrPatchTooLong\<close>, and the store
  is the one it was given: nothing is allocated and nothing is written.
\<close>

theorem Patch_too_long:
  assumes "Contains (bytes_of h content) magicString"
    and "length magicString < len patch"
  shows "Patch h content patch = Inr (h, NilSlice, Some ErrPatchTooLong)"
  using assms by (auto simp: Patch_def Contains_Index Let_def)

theorem Patch_too_long_witness:
  "Contains (bytes_of [''ab'' @ magicString @ ''cd'', replicate 132 (CHR ''A'')] (Slice 0 0 135 135))
     magicString \<and>
   length magicString < len (Slice 1 0 132 132) \<and>
   Patch [''ab'' @ magicString @ ''cd'', replicate 132 (CHR ''A'')] (Slice 0 0 135 135)
     (Slice 1 0 132 132) =
     Inr ([''ab'' @ magicString @ ''cd'', replicate 132 (CHR ''A'')], NilSlice, Some ErrPatchTooLong)"
proof -
  let ?h = "[''ab'' @ magicString @ ''cd'', replicate 132 (CHR ''A'')]"
  have "Index (bytes_of ?h (Slice 0 0 135 135)) magicString = 2" by code_simp
  then have c: "Contains (bytes_of ?h (Slice 0 0 135 135)) magicString"
    by (simp add: Contains_Index)
  have l: "length magicString < len (Slice 1 0 132 132)" by (simp add: length_magicString)
  from c l Patch_too_long [OF c l] show ?thesis by (intro conjI)
qed

text \<open>
  C4. When the content does not contain the marker and the payload is not empty
  and no longer than the marker, the call returns the content slice itself with
  no error, in the store it was given.
\<close>

theorem Patch_marker_absent:
  assumes "\<not> Contains (bytes_of h content) magicString"
    and "len patch \<noteq> 0" and "len patch \<le> length magicString"
  shows "Patch h content patch = Inr (h, content, None)"
  using assms by (simp add: Patch_def Contains_Index)

theorem Patch_marker_absent_witness:
  "\<not> Contains (bytes_of [''device tree'', ''hello''] (Slice 0 0 11 11)) magicString \<and>
   len (Slice 1 0 5 5) \<noteq> 0 \<and> len (Slice 1 0 5 5) \<le> length magicString \<and>
   Patch [''device tree'', ''hello''] (Slice 0 0 11 11) (Slice 1 0 5 5) =
     Inr ([''device tree'', ''hello''], Slice 0 0 11 11, None)"
proof -
  let ?h = "[''device tree'', ''hello'']"
  have "Index (bytes_of ?h (Slice 0 0 11 11)) magicString = - 1" by code_simp
  then have c: "\<not> Contains (bytes_of ?h (Slice 0 0 11 11)) magicString"
    by (simp add: Contains_Index)
  have n: "len (Slice 1 0 5 5) \<noteq> 0" by simp
  have l: "len (Slice 1 0 5 5) \<le> length magicString" by (simp add: length_magicString)
  from c n l Patch_marker_absent [OF c n l] show ?thesis by (intro conjI)
qed

section \<open>The bytes of the patched copy\<close>

lemma length_patched:
  "i + length magicString \<le> length C \<Longrightarrow> length P \<le> length magicString \<Longrightarrow>
   length (patched C i P) = length C"
  by (simp add: patched_def)

lemma take_patched:
  "i + length magicString \<le> length C \<Longrightarrow> take i (patched C i P) = take i C"
  by (simp add: patched_def)

lemma drop_patched:
  "i + length magicString \<le> length C \<Longrightarrow> drop i (patched C i P) =
     P @ replicate (length magicString - length P) (CHR '' '') @ drop (i + length magicString) C"
  by (simp add: patched_def)

lemma payload_patched:
  "i + length magicString \<le> length C \<Longrightarrow> take (length P) (drop i (patched C i P)) = P"
  by (simp add: drop_patched)

lemma padding_patched:
  assumes "i + length magicString \<le> length C"
  shows "take (length magicString - length P) (drop (i + length P) (patched C i P)) =
           replicate (length magicString - length P) (CHR '' '')"
proof -
  have "drop (i + length P) (patched C i P) = drop (length P) (drop i (patched C i P))"
    by (simp add: add.commute)
  also have "\<dots> = replicate (length magicString - length P) (CHR '' '') @
                     drop (i + length magicString) C"
    using assms by (simp add: drop_patched)
  finally show ?thesis by simp
qed

lemma rest_patched:
  assumes "i + length magicString \<le> length C" and "length P \<le> length magicString"
  shows "drop (i + length magicString) (patched C i P) = drop (i + length magicString) C"
proof -
  have "drop (i + length magicString) (patched C i P) =
          drop (length magicString) (drop i (patched C i P))"
    by (simp add: add.commute)
  also have "\<dots> = drop (i + length magicString) C"
    using assms by (simp add: drop_patched)
  finally show ?thesis .
qed

lemma bytes_of_new: "length A = n \<Longrightarrow> bytes_of (h @ [A]) (Slice (length h) 0 n n) = A"
  by simp

lemma first_at_bound: "first_at s sep i \<Longrightarrow> i + length sep \<le> length s"
  by (simp add: first_at_def occurs_at_def)

text \<open>
  C1 (amended). When the first occurrence of the marker in the content is at
  offset \<open>i\<close> and the payload is not empty and no longer than the marker, the
  call returns, with no error, a slice of the same length as the content that
  shows the content up to \<open>i\<close>, then the payload, then spaces up to the end of
  the marker's range, then the content after the marker's range.
\<close>

theorem Patch_overwrites_marker:
  assumes "valid h content" and "valid h patch"
    and "first_at (bytes_of h content) magicString i"
    and "0 < len patch" and "len patch \<le> length magicString"
  shows "\<exists>h' r. Patch h content patch = Inr (h', r, None) \<and>
           length (bytes_of h' r) = length (bytes_of h content) \<and>
           take i (bytes_of h' r) = take i (bytes_of h content) \<and>
           take (len patch) (drop i (bytes_of h' r)) = bytes_of h patch \<and>
           take (length magicString - len patch) (drop (i + len patch) (bytes_of h' r)) =
             replicate (length magicString - len patch) (CHR '' '') \<and>
           drop (i + length magicString) (bytes_of h' r) =
             drop (i + length magicString) (bytes_of h content)"
proof -
  let ?C = "bytes_of h content" and ?P = "bytes_of h patch"
  have lc: "length ?C = len content" using assms(1) by (rule length_bytes_of)
  have lp: "length ?P = len patch" using assms(2) by (rule length_bytes_of)
  have b: "i + length magicString \<le> length ?C" using assms(3) by (rule first_at_bound)
  have lP: "length ?P \<le> length magicString" using lp assms(5) by simp
  have ix: "Index ?C magicString = int i" using assms(3) by (simp add: first_at_Index)
  have ne: "len patch \<noteq> 0" using assms(4) by simp
  let ?r = "Slice (length h) 0 (len content) (len content)"
  let ?h' = "h @ [patched ?C i ?P]"
  have run: "Patch h content patch = Inr (?h', ?r, None)"
    using assms(1,2) ne assms(5) ix by (rule Patch_patching)
  have R: "bytes_of ?h' ?r = patched ?C i ?P"
    using b lP lc by (intro bytes_of_new) (simp add: length_patched)
  have "length (bytes_of ?h' ?r) = length ?C"
    using b lP by (simp only: R length_patched)
  moreover have "take i (bytes_of ?h' ?r) = take i ?C"
    using b by (simp only: R take_patched)
  moreover have "take (len patch) (drop i (bytes_of ?h' ?r)) = ?P"
    using b payload_patched [of i ?C ?P] by (simp only: R lp)
  moreover have "take (length magicString - len patch) (drop (i + len patch) (bytes_of ?h' ?r)) =
                   replicate (length magicString - len patch) (CHR '' '')"
    using b padding_patched [of i ?C ?P] by (simp only: R lp)
  moreover have "drop (i + length magicString) (bytes_of ?h' ?r) =
                   drop (i + length magicString) ?C"
    using b lP by (simp only: R rest_patched)
  ultimately show ?thesis using run by blast
qed

theorem Patch_overwrites_marker_witness:
  "valid [''ab'' @ magicString @ ''cd'', ''hello''] (Slice 0 0 135 135) \<and>
   valid [''ab'' @ magicString @ ''cd'', ''hello''] (Slice 1 0 5 5) \<and>
   first_at (bytes_of [''ab'' @ magicString @ ''cd'', ''hello''] (Slice 0 0 135 135)) magicString 2 \<and>
   0 < len (Slice 1 0 5 5) \<and> len (Slice 1 0 5 5) \<le> length magicString \<and>
   (\<exists>h' r. Patch [''ab'' @ magicString @ ''cd'', ''hello''] (Slice 0 0 135 135) (Slice 1 0 5 5) =
              Inr (h', r, None) \<and>
      length (bytes_of h' r) =
        length (bytes_of [''ab'' @ magicString @ ''cd'', ''hello''] (Slice 0 0 135 135)) \<and>
      take 2 (bytes_of h' r) =
        take 2 (bytes_of [''ab'' @ magicString @ ''cd'', ''hello''] (Slice 0 0 135 135)) \<and>
      take (len (Slice 1 0 5 5)) (drop 2 (bytes_of h' r)) =
        bytes_of [''ab'' @ magicString @ ''cd'', ''hello''] (Slice 1 0 5 5) \<and>
      take (length magicString - len (Slice 1 0 5 5)) (drop (2 + len (Slice 1 0 5 5)) (bytes_of h' r)) =
        replicate (length magicString - len (Slice 1 0 5 5)) (CHR '' '') \<and>
      drop (2 + length magicString) (bytes_of h' r) =
        drop (2 + length magicString)
          (bytes_of [''ab'' @ magicString @ ''cd'', ''hello''] (Slice 0 0 135 135)))"
proof -
  let ?h = "[''ab'' @ magicString @ ''cd'', ''hello'']"
  have vc: "valid ?h (Slice 0 0 135 135)" by (simp add: length_magicString)
  have vp: "valid ?h (Slice 1 0 5 5)" by simp
  have "Index (bytes_of ?h (Slice 0 0 135 135)) magicString = int 2" by code_simp
  then have f: "first_at (bytes_of ?h (Slice 0 0 135 135)) magicString 2"
    by (simp only: first_at_Index)
  have p: "0 < len (Slice 1 0 5 5)" by simp
  have l: "len (Slice 1 0 5 5) \<le> length magicString" by (simp add: length_magicString)
  from vc vp f p l Patch_overwrites_marker [OF vc vp f p l] show ?thesis by (intro conjI)
qed

text \<open>
  Where C1 fails as it was stated, for every payload no longer than the marker:
  the content is the marker alone and the payload is empty. The call returns
  the content slice itself, whose bytes in the marker's range are the marker
  and not spaces.
\<close>

theorem Patch_overwrites_marker_counterexample:
  "first_at (bytes_of [magicString] (Slice 0 0 131 131)) magicString 0 \<and>
   len NilSlice \<le> length magicString \<and>
   Patch [magicString] (Slice 0 0 131 131) NilSlice =
     Inr ([magicString], Slice 0 0 131 131, None) \<and>
   take (length magicString - len NilSlice)
     (drop (0 + len NilSlice) (bytes_of [magicString] (Slice 0 0 131 131))) \<noteq>
     replicate (length magicString - len NilSlice) (CHR '' '')"
proof -
  have "Index (bytes_of [magicString] (Slice 0 0 131 131)) magicString = int 0" by code_simp
  then have f: "first_at (bytes_of [magicString] (Slice 0 0 131 131)) magicString 0"
    by (simp only: first_at_Index)
  have r: "Patch [magicString] (Slice 0 0 131 131) NilSlice =
             Inr ([magicString], Slice 0 0 131 131, None)"
    by (simp add: Patch_def)
  have "take (length magicString - len NilSlice)
          (drop (0 + len NilSlice) (bytes_of [magicString] (Slice 0 0 131 131))) \<noteq>
        replicate (length magicString - len NilSlice) (CHR '' '')"
    by code_simp
  with f r show ?thesis by simp
qed

section \<open>The four outcomes of a call\<close>

lemma Patch_outcomes:
  assumes vc: "valid h content" and vp: "valid h patch"
  obtains
    (noop) "Patch h content patch = Inr (h, content, None)"
      and "len patch = 0 \<or> \<not> Contains (bytes_of h content) magicString"
  | (too_long) "Patch h content patch = Inr (h, NilSlice, Some ErrPatchTooLong)"
      and "Contains (bytes_of h content) magicString"
      and "length magicString < len patch"
  | (patching) i where
      "Patch h content patch =
         Inr (h @ [patched (bytes_of h content) i (bytes_of h patch)],
              Slice (length h) 0 (len content) (len content), None)"
      and "first_at (bytes_of h content) magicString i"
      and "0 < len patch" and "len patch \<le> length magicString"
proof (cases "len patch = 0")
  case True
  then have "Patch h content patch = Inr (h, content, None)" by (simp add: Patch_def)
  with True show ?thesis by (intro noop) simp_all
next
  case ne: False
  show ?thesis
  proof (cases "bytes_of h content" magicString rule: Index_cases)
    case absent
    then have "Patch h content patch = Inr (h, content, None)" by (simp add: Patch_def)
    moreover from absent have "\<not> Contains (bytes_of h content) magicString"
      by (simp add: Contains_Index)
    ultimately show ?thesis by (intro noop) simp_all
  next
    case (found i)
    then have c: "Contains (bytes_of h content) magicString" by (simp add: Contains_Index)
    show ?thesis
    proof (cases "length magicString < len patch")
      case True
      with found ne have "Patch h content patch = Inr (h, NilSlice, Some ErrPatchTooLong)"
        by (simp add: Patch_def)
      with c True show ?thesis by (intro too_long)
    next
      case False
      then have le: "len patch \<le> length magicString" by simp
      have "Patch h content patch =
              Inr (h @ [patched (bytes_of h content) i (bytes_of h patch)],
                   Slice (length h) 0 (len content) (len content), None)"
        using vc vp ne le found by (rule Patch_patching)
      moreover have "first_at (bytes_of h content) magicString i"
        using found by (simp add: first_at_Index)
      moreover have "0 < len patch" using ne by simp
      ultimately show ?thesis using le by (intro patching)
    qed
  qed
qed

text \<open>
  C6 (amended). A call never panics, and it returns an error exactly when the
  content contains the marker and the payload is longer than the marker; the
  error is then \<open>ErrPatchTooLong\<close>, the slice is nil and the store is
  unchanged. Content without the marker is returned as it is, whatever the
  length of the payload.
\<close>

theorem Patch_error_exactly:
  assumes "valid h content" and "valid h patch"
  shows "(\<forall>p. Patch h content patch \<noteq> Inl p) \<and>
         ((\<exists>h' r e. Patch h content patch = Inr (h', r, Some e)) \<longleftrightarrow>
            Contains (bytes_of h content) magicString \<and> length magicString < len patch) \<and>
         (Contains (bytes_of h content) magicString \<and> length magicString < len patch \<longrightarrow>
            Patch h content patch = Inr (h, NilSlice, Some ErrPatchTooLong)) \<and>
         (\<not> Contains (bytes_of h content) magicString \<longrightarrow>
            Patch h content patch = Inr (h, content, None))"
  using assms
proof (cases rule: Patch_outcomes)
  case noop
  then show ?thesis by (auto simp: Patch_def Contains_Index)
next
  case too_long
  then show ?thesis by auto
next
  case (patching i)
  then have "Contains (bytes_of h content) magicString"
    by (simp add: first_at_Index Contains_Index)
  with patching show ?thesis by auto
qed

theorem Patch_error_exactly_witness:
  "valid [''ab'' @ magicString @ ''cd'', replicate 132 (CHR ''A'')] (Slice 0 0 135 135) \<and>
   valid [''ab'' @ magicString @ ''cd'', replicate 132 (CHR ''A'')] (Slice 1 0 132 132) \<and>
   Contains (bytes_of [''ab'' @ magicString @ ''cd'', replicate 132 (CHR ''A'')] (Slice 0 0 135 135))
     magicString \<and>
   length magicString < len (Slice 1 0 132 132) \<and>
   Patch [''ab'' @ magicString @ ''cd'', replicate 132 (CHR ''A'')] (Slice 0 0 135 135)
     (Slice 1 0 132 132) =
     Inr ([''ab'' @ magicString @ ''cd'', replicate 132 (CHR ''A'')], NilSlice, Some ErrPatchTooLong)"
proof -
  let ?h = "[''ab'' @ magicString @ ''cd'', replicate 132 (CHR ''A'')]"
  have vc: "valid ?h (Slice 0 0 135 135)" by (simp add: length_magicString)
  have vp: "valid ?h (Slice 1 0 132 132)" by simp
  have "Index (bytes_of ?h (Slice 0 0 135 135)) magicString = 2" by code_simp
  then have c: "Contains (bytes_of ?h (Slice 0 0 135 135)) magicString"
    by (simp add: Contains_Index)
  have l: "length magicString < len (Slice 1 0 132 132)" by (simp add: length_magicString)
  from Patch_error_exactly [OF vc vp] c l
  have "Patch ?h (Slice 0 0 135 135) (Slice 1 0 132 132) =
          Inr (?h, NilSlice, Some ErrPatchTooLong)" by blast
  with vc vp c l show ?thesis by (intro conjI)
qed

text \<open>
  Where C6 fails as it was stated, for every content: the content
  \<open>device tree\<close> does not contain the marker, the payload is 132 bytes and so
  longer than the marker, and the call returns the content with no error.
\<close>

theorem Patch_error_exactly_counterexample:
  "length magicString < len (Slice 1 0 132 132) \<and>
   Patch [''device tree'', replicate 132 (CHR ''A'')] (Slice 0 0 11 11) (Slice 1 0 132 132) =
     Inr ([''device tree'', replicate 132 (CHR ''A'')], Slice 0 0 11 11, None)"
proof -
  have "Index (bytes_of [''device tree'', replicate 132 (CHR ''A'')] (Slice 0 0 11 11))
          magicString = - 1" by code_simp
  then show ?thesis by (simp add: Patch_def length_magicString)
qed

text \<open>
  The shape of the marker: 131 bytes, a line of \<open>#\<close> and 64 hexadecimal
  digits, a line feed, and a second line of \<open>#\<close> and 64 hexadecimal digits.
\<close>

lemma magicString_shape:
  "length magicString = 131 \<and> magicString ! 65 = CHR 0x0A \<and>
   magicString ! 0 = CHR ''#'' \<and>
   list_all (\<lambda>c. c \<in> set ''0123456789abcdef'') (take 64 (drop 1 magicString)) \<and>
   magicString ! 66 = CHR ''#'' \<and>
   list_all (\<lambda>c. c \<in> set ''0123456789abcdef'') (take 64 (drop 67 magicString)) \<and>
   length (drop 67 magicString) = 64"
  by code_simp

text \<open>
  C7 (amended). The marker is 131 bytes: two lines of 65 bytes, each a \<open>#\<close> and
  64 hexadecimal digits, and the line feed between them. For a content of 200
  bytes whose first marker is at offset 50, a payload of 132 bytes, one byte
  more than the marker, gives \<open>ErrPatchTooLong\<close> and the nil slice; the
  payload \<open>hello\<close> gives a result of length 200 with \<open>hello\<close> in bytes 50 to
  54, spaces in bytes 55 to 180, and the content's bytes everywhere else.
\<close>

theorem Patch_scenario:
  assumes "valid h content" and "len content = 200"
    and "first_at (bytes_of h content) magicString 50"
    and "valid h long" and "len long = 132"
    and "valid h hello" and "bytes_of h hello = ''hello''"
  shows "length magicString = 131 \<and> magicString ! 65 = CHR 0x0A \<and>
         magicString ! 0 = CHR ''#'' \<and>
         list_all (\<lambda>c. c \<in> set ''0123456789abcdef'') (take 64 (drop 1 magicString)) \<and>
         magicString ! 66 = CHR ''#'' \<and>
         list_all (\<lambda>c. c \<in> set ''0123456789abcdef'') (take 64 (drop 67 magicString)) \<and>
         length (drop 67 magicString) = 64 \<and>
         Patch h content long = Inr (h, NilSlice, Some ErrPatchTooLong) \<and>
         (\<exists>h' r. Patch h content hello = Inr (h', r, None) \<and>
            length (bytes_of h' r) = 200 \<and>
            take 50 (bytes_of h' r) = take 50 (bytes_of h content) \<and>
            take 5 (drop 50 (bytes_of h' r)) = ''hello'' \<and>
            take 126 (drop 55 (bytes_of h' r)) = replicate 126 (CHR '' '') \<and>
            drop 181 (bytes_of h' r) = drop 181 (bytes_of h content))"
proof -
  let ?C = "bytes_of h content" and ?P = "bytes_of h hello"
  have m: "length magicString = 131" by (rule length_magicString)
  have lc: "length ?C = 200" using assms(1,2) by (simp add: length_bytes_of)
  have lh: "len hello = 5" using length_bytes_of [OF assms(6)] assms(7) by simp
  have lP: "length ?P = 5" using assms(7) by simp
  have b: "50 + length magicString \<le> length ?C" using m lc by simp
  have ix: "Index ?C magicString = int 50" using assms(3) by (simp only: first_at_Index)
  then have c: "Contains ?C magicString" by (simp add: Contains_Index)
  have long: "Patch h content long = Inr (h, NilSlice, Some ErrPatchTooLong)"
    using ix assms(5) m by (simp add: Patch_def)
  define D where "D = patched ?C 50 ?P"
  define r where "r = Slice (length h) 0 (len content) (len content)"
  have run: "Patch h content hello = Inr (h @ [D], r, None)"
    unfolding D_def r_def using assms(1,6) _ _ ix by (rule Patch_patching) (simp_all add: lh m)
  have d1: "length D = 200"
    unfolding D_def using b lP m lc by (simp add: length_patched)
  have d2: "take 50 D = take 50 ?C"
    unfolding D_def using b by (rule take_patched)
  have "take (length ?P) (drop 50 (patched ?C 50 ?P)) = ?P"
    using b by (rule payload_patched)
  then have "take 5 (drop 50 D) = ?P" by (simp only: lP D_def)
  then have d3: "take 5 (drop 50 D) = ''hello''" by (simp only: assms(7))
  have d4: "take 126 (drop 55 D) = replicate 126 (CHR '' '')"
    unfolding D_def using padding_patched [OF b, of ?P] by (simp add: lP m)
  have d5: "drop 181 D = drop 181 ?C"
    unfolding D_def using rest_patched [OF b, of ?P] by (simp add: lP m)
  have R: "bytes_of (h @ [D]) r = D"
    unfolding r_def using d1 assms(2) by (intro bytes_of_new) simp
  have "Patch h content hello = Inr (h @ [D], r, None) \<and>
        length (bytes_of (h @ [D]) r) = 200 \<and>
        take 50 (bytes_of (h @ [D]) r) = take 50 ?C \<and>
        take 5 (drop 50 (bytes_of (h @ [D]) r)) = ''hello'' \<and>
        take 126 (drop 55 (bytes_of (h @ [D]) r)) = replicate 126 (CHR '' '') \<and>
        drop 181 (bytes_of (h @ [D]) r) = drop 181 ?C"
    using run d1 d2 d3 d4 d5 by (simp only: R simp_thms)
  then have "Patch h content long = Inr (h, NilSlice, Some ErrPatchTooLong) \<and>
        (\<exists>h' r. Patch h content hello = Inr (h', r, None) \<and>
            length (bytes_of h' r) = 200 \<and>
            take 50 (bytes_of h' r) = take 50 (bytes_of h content) \<and>
            take 5 (drop 50 (bytes_of h' r)) = ''hello'' \<and>
            take 126 (drop 55 (bytes_of h' r)) = replicate 126 (CHR '' '') \<and>
            drop 181 (bytes_of h' r) = drop 181 (bytes_of h content))"
    using long by blast
  with magicString_shape show ?thesis by (simp only: simp_thms)
qed

theorem Patch_scenario_witness:
  "valid [replicate 50 (CHR ''x'') @ magicString @ replicate 19 (CHR ''y''),
          replicate 132 (CHR ''A''), ''hello''] (Slice 0 0 200 200) \<and>
   len (Slice 0 0 200 200) = 200 \<and>
   first_at (bytes_of [replicate 50 (CHR ''x'') @ magicString @ replicate 19 (CHR ''y''),
          replicate 132 (CHR ''A''), ''hello''] (Slice 0 0 200 200)) magicString 50 \<and>
   valid [replicate 50 (CHR ''x'') @ magicString @ replicate 19 (CHR ''y''),
          replicate 132 (CHR ''A''), ''hello''] (Slice 1 0 132 132) \<and>
   len (Slice 1 0 132 132) = 132 \<and>
   valid [replicate 50 (CHR ''x'') @ magicString @ replicate 19 (CHR ''y''),
          replicate 132 (CHR ''A''), ''hello''] (Slice 2 0 5 5) \<and>
   bytes_of [replicate 50 (CHR ''x'') @ magicString @ replicate 19 (CHR ''y''),
          replicate 132 (CHR ''A''), ''hello''] (Slice 2 0 5 5) = ''hello'' \<and>
   Patch [replicate 50 (CHR ''x'') @ magicString @ replicate 19 (CHR ''y''),
          replicate 132 (CHR ''A''), ''hello''] (Slice 0 0 200 200) (Slice 1 0 132 132) =
     Inr ([replicate 50 (CHR ''x'') @ magicString @ replicate 19 (CHR ''y''),
           replicate 132 (CHR ''A''), ''hello''], NilSlice, Some ErrPatchTooLong) \<and>
   (\<exists>h' r. Patch [replicate 50 (CHR ''x'') @ magicString @ replicate 19 (CHR ''y''),
          replicate 132 (CHR ''A''), ''hello''] (Slice 0 0 200 200) (Slice 2 0 5 5) =
        Inr (h', r, None) \<and>
      length (bytes_of h' r) = 200 \<and>
      take 5 (drop 50 (bytes_of h' r)) = ''hello'' \<and>
      take 126 (drop 55 (bytes_of h' r)) = replicate 126 (CHR '' ''))"
proof -
  let ?h = "[replicate 50 (CHR ''x'') @ magicString @ replicate 19 (CHR ''y''),
             replicate 132 (CHR ''A''), ''hello'']"
  have vc: "valid ?h (Slice 0 0 200 200)" by (simp add: length_magicString)
  have lc: "len (Slice 0 0 200 200) = 200" by simp
  have "Index (bytes_of ?h (Slice 0 0 200 200)) magicString = int 50" by code_simp
  then have f: "first_at (bytes_of ?h (Slice 0 0 200 200)) magicString 50"
    by (simp only: first_at_Index)
  have vl: "valid ?h (Slice 1 0 132 132)" by simp
  have ll: "len (Slice 1 0 132 132) = 132" by simp
  have vh: "valid ?h (Slice 2 0 5 5)" by simp
  have bh: "bytes_of ?h (Slice 2 0 5 5) = ''hello''" by simp
  from Patch_scenario [OF vc lc f vl ll vh bh] vc lc f vl ll vh bh
  show ?thesis by blast
qed

text \<open>
  Where C7 fails as it was stated: the marker is not 64 bytes long, and on a
  content of 200 bytes with the marker at offset 50 a payload of 65 bytes is
  patched in with no error; with the payload \<open>hello\<close> byte 114 of the result
  is a space and not the content's byte.
\<close>

theorem Patch_scenario_counterexample:
  "length magicString \<noteq> 64 \<and>
   len (Slice 1 0 65 65) = 65 \<and>
   Patch [replicate 50 (CHR ''x'') @ magicString @ replicate 19 (CHR ''y''),
          replicate 65 (CHR ''A''), ''hello''] (Slice 0 0 200 200) (Slice 1 0 65 65) =
     Inr ([replicate 50 (CHR ''x'') @ magicString @ replicate 19 (CHR ''y''),
           replicate 65 (CHR ''A''), ''hello'',
           replicate 50 (CHR ''x'') @ replicate 65 (CHR ''A'') @ replicate 66 (CHR '' '') @
             replicate 19 (CHR ''y'')],
          Slice 3 0 200 200, None) \<and>
   Patch [replicate 50 (CHR ''x'') @ magicString @ replicate 19 (CHR ''y''),
          replicate 65 (CHR ''A''), ''hello''] (Slice 0 0 200 200) (Slice 2 0 5 5) =
     Inr ([replicate 50 (CHR ''x'') @ magicString @ replicate 19 (CHR ''y''),
           replicate 65 (CHR ''A''), ''hello'',
           replicate 50 (CHR ''x'') @ ''hello'' @ replicate 126 (CHR '' '') @
             replicate 19 (CHR ''y'')],
          Slice 3 0 200 200, None) \<and>
   (replicate 50 (CHR ''x'') @ ''hello'' @ replicate 126 (CHR '' '') @
      replicate 19 (CHR ''y'')) ! 114 \<noteq>
   (replicate 50 (CHR ''x'') @ magicString @ replicate 19 (CHR ''y'')) ! 114"
proof -
  let ?h = "[replicate 50 (CHR ''x'') @ magicString @ replicate 19 (CHR ''y''),
             replicate 65 (CHR ''A''), ''hello'']"
  have a: "length magicString \<noteq> 64" by (simp add: length_magicString)
  have b: "Patch ?h (Slice 0 0 200 200) (Slice 1 0 65 65) =
     Inr (?h @ [replicate 50 (CHR ''x'') @ replicate 65 (CHR ''A'') @ replicate 66 (CHR '' '') @
             replicate 19 (CHR ''y'')], Slice 3 0 200 200, None)"
    by code_simp
  have c: "Patch ?h (Slice 0 0 200 200) (Slice 2 0 5 5) =
     Inr (?h @ [replicate 50 (CHR ''x'') @ ''hello'' @ replicate 126 (CHR '' '') @
             replicate 19 (CHR ''y'')], Slice 3 0 200 200, None)"
    by code_simp
  have d: "(replicate 50 (CHR ''x'') @ ''hello'' @ replicate 126 (CHR '' '') @
      replicate 19 (CHR ''y'')) ! 114 \<noteq>
   (replicate 50 (CHR ''x'') @ magicString @ replicate 19 (CHR ''y'')) ! 114"
    by code_simp
  from a b c d show ?thesis by simp
qed

section \<open>Bounds and isolation\<close>

lemma valid_new: "length A = n \<Longrightarrow> valid (h @ [A]) (Slice (length h) 0 n n)"
  by simp

lemma valid_append: "valid h s \<Longrightarrow> valid (h @ g) s"
  by (cases s) (auto simp: nth_append)

text \<open>
  C10. A call on slices of the store never panics and returns a slice of the
  store it returns. Whenever the search finds the marker at index \<open>i\<close>, the
  marker's range ends inside the content, the slice expression \<open>dup[i:]\<close> on
  the new buffer succeeds, and the slice it gives lies inside the new array and
  is long enough for the whole padding and for a payload no longer than the
  marker, so both writes are complete and inside the buffer.
\<close>

theorem Patch_in_bounds:
  assumes "valid h content" and "valid h patch"
  shows "(\<exists>h' r e. Patch h content patch = Inr (h', r, e) \<and> valid h' r) \<and>
         (\<forall>i. Index (bytes_of h content) magicString = int i \<longrightarrow>
            i + length magicString \<le> len content \<and>
            (\<exists>d. slice_from (snd (make h (len content))) (int i) = Inr d \<and>
               valid (fst (make h (len content))) d \<and>
               length magicStringPadding \<le> len d \<and>
               (len patch \<le> length magicString \<longrightarrow> len patch \<le> len d)))"
proof
  let ?C = "bytes_of h content"
  have lc: "length ?C = len content" using assms(1) by (rule length_bytes_of)
  from assms show "\<exists>h' r e. Patch h content patch = Inr (h', r, e) \<and> valid h' r"
  proof (cases rule: Patch_outcomes)
    case noop
    with assms(1) show ?thesis by blast
  next
    case too_long
    then show ?thesis by simp
  next
    case (patching i)
    have b: "i + length magicString \<le> length ?C" using patching(2) by (rule first_at_bound)
    have "length (bytes_of h patch) \<le> length magicString"
      using patching(4) length_bytes_of [OF assms(2)] by simp
    with b have "length (patched ?C i (bytes_of h patch)) = len content"
      by (simp add: length_patched lc)
    then have "valid (h @ [patched ?C i (bytes_of h patch)])
                 (Slice (length h) 0 (len content) (len content))"
      by (rule valid_new)
    with patching(1) show ?thesis by blast
  qed
  show "\<forall>i. Index ?C magicString = int i \<longrightarrow>
            i + length magicString \<le> len content \<and>
            (\<exists>d. slice_from (snd (make h (len content))) (int i) = Inr d \<and>
               valid (fst (make h (len content))) d \<and>
               length magicStringPadding \<le> len d \<and>
               (len patch \<le> length magicString \<longrightarrow> len patch \<le> len d))"
  proof (intro allI impI)
    fix i assume "Index ?C magicString = int i"
    then have "first_at ?C magicString i" by (simp only: first_at_Index)
    then have b: "i + length magicString \<le> len content"
      using lc first_at_bound by fastforce
    let ?d = "Slice (length h) i (len content - i) (len content - i)"
    have "slice_from (snd (make h (len content))) (int i) = Inr ?d"
      using b by (simp add: make_def)
    moreover have "valid (fst (make h (len content))) ?d"
      using b by (simp add: make_def)
    moreover have "length magicStringPadding \<le> len ?d"
      using b by (simp add: magicStringPadding_def Repeat_single)
    moreover have "len patch \<le> length magicString \<longrightarrow> len patch \<le> len ?d"
      using b by auto
    ultimately show "i + length magicString \<le> len content \<and>
            (\<exists>d. slice_from (snd (make h (len content))) (int i) = Inr d \<and>
               valid (fst (make h (len content))) d \<and>
               length magicStringPadding \<le> len d \<and>
               (len patch \<le> length magicString \<longrightarrow> len patch \<le> len d))"
      using b by blast
  qed
qed

theorem Patch_in_bounds_witness:
  "valid [''ab'' @ magicString @ ''cd'', ''hello''] (Slice 0 0 135 135) \<and>
   valid [''ab'' @ magicString @ ''cd'', ''hello''] (Slice 1 0 5 5) \<and>
   Index (bytes_of [''ab'' @ magicString @ ''cd'', ''hello''] (Slice 0 0 135 135)) magicString =
     int 2 \<and>
   len (Slice 1 0 5 5) \<le> length magicString \<and>
   (\<exists>h' r e. Patch [''ab'' @ magicString @ ''cd'', ''hello''] (Slice 0 0 135 135) (Slice 1 0 5 5) =
      Inr (h', r, e) \<and> valid h' r) \<and>
   2 + length magicString \<le> len (Slice 0 0 135 135) \<and>
   (\<exists>d. slice_from (snd (make [''ab'' @ magicString @ ''cd'', ''hello''] (len (Slice 0 0 135 135))))
          (int 2) = Inr d \<and>
        valid (fst (make [''ab'' @ magicString @ ''cd'', ''hello''] (len (Slice 0 0 135 135)))) d \<and>
        length magicStringPadding \<le> len d \<and> len (Slice 1 0 5 5) \<le> len d)"
proof -
  let ?h = "[''ab'' @ magicString @ ''cd'', ''hello'']"
  have vc: "valid ?h (Slice 0 0 135 135)" by (simp add: length_magicString)
  have vp: "valid ?h (Slice 1 0 5 5)" by simp
  have ix: "Index (bytes_of ?h (Slice 0 0 135 135)) magicString = int 2" by code_simp
  have l: "len (Slice 1 0 5 5) \<le> length magicString" by (simp add: length_magicString)
  from Patch_in_bounds [OF vc vp] vc vp ix l show ?thesis by blast
qed

lemma set_index_new:
  assumes "set_index (h @ [D]) (Slice (length h) off n c) k b = Inr h''"
  shows "h'' = h @ [D[off + k := b]]"
  using assms by (simp split: if_splits)

lemma copy_new:
  "fst (copy (h @ [D]) (Slice (length h) off n c) src) =
     h @ [take off D @ take (min n (length src)) src @ drop (off + min n (length src)) D]"
  by (simp add: Let_def)

text \<open>
  C5. A call changes no array of the store it was given, so the content's bytes
  are the same after it. On the patching branch (a payload that is not empty
  and no longer than the marker, on content that contains the marker) the
  result is the slice of one new array, which the old store does not have; an
  assignment to an element of the result, or a \<open>copy\<close> into it, then leaves
  every array of the old store, and so the content's bytes, as they were.
\<close>

theorem Patch_copy_isolation:
  assumes "valid h content" and "valid h patch"
    and "Patch h content patch = Inr (h', r, e)"
  shows "take (length h) h' = h \<and> bytes_of h' content = bytes_of h content \<and>
         (0 < len patch \<and> Contains (bytes_of h content) magicString \<and>
          len patch \<le> length magicString \<longrightarrow>
            r = Slice (length h) 0 (len content) (len content) \<and>
            length h' = Suc (length h) \<and>
            (\<forall>k b h''. set_index h' r k b = Inr h'' \<longrightarrow>
               take (length h) h'' = h \<and> bytes_of h'' content = bytes_of h content) \<and>
            (\<forall>src. take (length h) (fst (copy h' r src)) = h \<and>
               bytes_of (fst (copy h' r src)) content = bytes_of h content))"
  using assms(1,2)
proof (cases rule: Patch_outcomes)
  case noop
  with assms(3) show ?thesis by auto
next
  case too_long
  with assms(3) show ?thesis by auto
next
  case (patching i)
  define D where "D = patched (bytes_of h content) i (bytes_of h patch)"
  from patching(1) assms(3) have h': "h' = h @ [D]"
    and r: "r = Slice (length h) 0 (len content) (len content)"
    by (simp_all add: D_def)
  have keep: "bytes_of (h @ g) content = bytes_of h content" for g
    using assms(1) by (rule bytes_of_append)
  have "\<forall>k b h''. set_index h' r k b = Inr h'' \<longrightarrow>
          take (length h) h'' = h \<and> bytes_of h'' content = bytes_of h content"
  proof (intro allI impI)
    fix k b h'' assume "set_index h' r k b = Inr h''"
    then have "h'' = h @ [D[0 + k := b]]" unfolding h' r by (rule set_index_new)
    then show "take (length h) h'' = h \<and> bytes_of h'' content = bytes_of h content"
      using keep by simp
  qed
  moreover have "\<forall>src. take (length h) (fst (copy h' r src)) = h \<and>
                   bytes_of (fst (copy h' r src)) content = bytes_of h content"
    unfolding h' r copy_new using keep by simp
  ultimately show ?thesis using h' r keep by simp
qed

theorem Patch_copy_isolation_witness:
  "valid [''ab'' @ magicString @ ''cd'', ''hello''] (Slice 0 0 135 135) \<and>
   valid [''ab'' @ magicString @ ''cd'', ''hello''] (Slice 1 0 5 5) \<and>
   Patch [''ab'' @ magicString @ ''cd'', ''hello''] (Slice 0 0 135 135) (Slice 1 0 5 5) =
     Inr ([''ab'' @ magicString @ ''cd'', ''hello'',
           ''ab'' @ ''hello'' @ replicate 126 (CHR '' '') @ ''cd''],
          Slice 2 0 135 135, None) \<and>
   0 < len (Slice 1 0 5 5) \<and>
   Contains (bytes_of [''ab'' @ magicString @ ''cd'', ''hello''] (Slice 0 0 135 135)) magicString \<and>
   len (Slice 1 0 5 5) \<le> length magicString \<and>
   set_index [''ab'' @ magicString @ ''cd'', ''hello'',
              ''ab'' @ ''hello'' @ replicate 126 (CHR '' '') @ ''cd'']
     (Slice 2 0 135 135) 0 (CHR ''Z'') =
     Inr [''ab'' @ magicString @ ''cd'', ''hello'',
          ''Zb'' @ ''hello'' @ replicate 126 (CHR '' '') @ ''cd''] \<and>
   bytes_of [''ab'' @ magicString @ ''cd'', ''hello'',
             ''Zb'' @ ''hello'' @ replicate 126 (CHR '' '') @ ''cd''] (Slice 0 0 135 135) =
     bytes_of [''ab'' @ magicString @ ''cd'', ''hello''] (Slice 0 0 135 135)"
proof -
  let ?h = "[''ab'' @ magicString @ ''cd'', ''hello'']"
  let ?h' = "[''ab'' @ magicString @ ''cd'', ''hello'',
              ''ab'' @ ''hello'' @ replicate 126 (CHR '' '') @ ''cd'']"
  let ?h'' = "[''ab'' @ magicString @ ''cd'', ''hello'',
               ''Zb'' @ ''hello'' @ replicate 126 (CHR '' '') @ ''cd'']"
  have vc: "valid ?h (Slice 0 0 135 135)" by (simp add: length_magicString)
  have vp: "valid ?h (Slice 1 0 5 5)" by simp
  have run: "Patch ?h (Slice 0 0 135 135) (Slice 1 0 5 5) = Inr (?h', Slice 2 0 135 135, None)"
    by code_simp
  have p: "0 < len (Slice 1 0 5 5)" by simp
  have "Index (bytes_of ?h (Slice 0 0 135 135)) magicString = 2" by code_simp
  then have c: "Contains (bytes_of ?h (Slice 0 0 135 135)) magicString"
    by (simp add: Contains_Index)
  have l: "len (Slice 1 0 5 5) \<le> length magicString" by (simp add: length_magicString)
  have w: "set_index ?h' (Slice 2 0 135 135) 0 (CHR ''Z'') = Inr ?h''" by simp
  from Patch_copy_isolation [OF vc vp run] p c l w
  have "bytes_of ?h'' (Slice 0 0 135 135) = bytes_of ?h (Slice 0 0 135 135)" by blast
  with vc vp run p c l w show ?thesis by (intro conjI)
qed

section \<open>Occurrences of the marker do not overlap\<close>

text \<open>
  No proper shift of the marker agrees with the marker where the two overlap:
  the only \<open>#\<close> after the first one opens the second line, and the second
  line goes on with other digits than the first.
\<close>

lemma magicString_unbordered:
  "list_all (\<lambda>d. take (131 - d) (drop d magicString) \<noteq> take (131 - d) magicString) [1..<131]"
  by code_simp

lemma occurs_at_shift:
  assumes i: "occurs_at s sep i" and j: "occurs_at s sep (i + d)" and d: "d \<le> length sep"
  shows "take (length sep - d) (drop d sep) = take (length sep - d) sep"
proof -
  have "take (length sep - d) (drop d sep) =
          take (length sep - d) (drop d (take (length sep) (drop i s)))"
    using i by (simp add: occurs_at_def)
  also have "\<dots> = take (length sep - d) (drop (i + d) s)"
    by (simp add: drop_take add.commute)
  also have "\<dots> = take (length sep - d) (take (length sep) (drop (i + d) s))"
    by (simp add: min_absorb1)
  also have "\<dots> = take (length sep - d) sep"
    using j by (simp add: occurs_at_def)
  finally show ?thesis .
qed

lemma occurs_at_magicString_apart:
  assumes "occurs_at s magicString i" and "occurs_at s magicString j" and "i < j"
  shows "i + length magicString \<le> j"
proof (rule ccontr)
  assume "\<not> i + length magicString \<le> j"
  then have lt: "j - i < 131" and pos: "1 \<le> j - i"
    using assms(3) by (simp_all add: length_magicString)
  have j: "j = i + (j - i)" using assms(3) by simp
  have "take (131 - (j - i)) (drop (j - i) magicString) = take (131 - (j - i)) magicString"
    using occurs_at_shift [of s magicString i "j - i"] assms(1,2) lt j
    by (simp add: length_magicString)
  moreover have "j - i \<in> set [1..<131]" using lt pos by simp
  ultimately show False using magicString_unbordered by (auto simp: list_all_iff)
qed

text \<open>
  C8. When the marker stands in the content more than once (at its first
  offset \<open>i\<close> and at another offset \<open>j\<close>) and the payload is not empty and no
  longer than the marker, the call returns with no error a result in which the
  range of the first occurrence holds the payload and the padding, and the
  marker still stands at \<open>j\<close>, on the bytes the content has there.
\<close>

theorem Patch_first_occurrence_only:
  assumes "valid h content" and "valid h patch"
    and "first_at (bytes_of h content) magicString i"
    and "occurs_at (bytes_of h content) magicString j" and "j \<noteq> i"
    and "0 < len patch" and "len patch \<le> length magicString"
  shows "\<exists>h' r. Patch h content patch = Inr (h', r, None) \<and>
           take (length magicString) (drop i (bytes_of h' r)) =
             bytes_of h patch @ replicate (length magicString - len patch) (CHR '' '') \<and>
           i + length magicString \<le> j \<and>
           occurs_at (bytes_of h' r) magicString j \<and>
           drop j (bytes_of h' r) = drop j (bytes_of h content)"
proof -
  let ?C = "bytes_of h content" and ?P = "bytes_of h patch"
  have lc: "length ?C = len content" using assms(1) by (rule length_bytes_of)
  have lp: "length ?P = len patch" using assms(2) by (rule length_bytes_of)
  have b: "i + length magicString \<le> length ?C" using assms(3) by (rule first_at_bound)
  have lP: "length ?P \<le> length magicString" using lp assms(7) by simp
  have ix: "Index ?C magicString = int i" using assms(3) by (simp only: first_at_Index)
  then have oi: "occurs_at ?C magicString i" and first: "\<forall>k<i. \<not> occurs_at ?C magicString k"
    by (simp_all add: Index_first)
  have "i < j" using first assms(4,5) by (meson linorder_neqE_nat)
  with oi assms(4) have apart: "i + length magicString \<le> j"
    by (rule occurs_at_magicString_apart)
  have ne: "len patch \<noteq> 0" using assms(6) by simp
  define D where "D = patched ?C i ?P"
  define r where "r = Slice (length h) 0 (len content) (len content)"
  have run: "Patch h content patch = Inr (h @ [D], r, None)"
    unfolding D_def r_def using assms(1,2) ne assms(7) ix by (rule Patch_patching)
  have lD: "length D = length ?C" unfolding D_def using b lP by (rule length_patched)
  have R: "bytes_of (h @ [D]) r = D"
    unfolding r_def using lD lc by (intro bytes_of_new) simp
  have d1: "take (length magicString) (drop i D) =
              ?P @ replicate (length magicString - len patch) (CHR '' '')"
    unfolding D_def using b lP by (simp add: drop_patched lp)
  have rest: "drop (i + length magicString) D = drop (i + length magicString) ?C"
    unfolding D_def using b lP by (rule rest_patched)
  have "drop j D = drop (j - (i + length magicString)) (drop (i + length magicString) D)"
    using apart by simp
  also have "\<dots> = drop (j - (i + length magicString)) (drop (i + length magicString) ?C)"
    by (simp only: rest)
  also have "\<dots> = drop j ?C" using apart by simp
  finally have d2: "drop j D = drop j ?C" .
  have d3: "occurs_at D magicString j"
    using assms(4) d2 lD by (simp add: occurs_at_def)
  have "Patch h content patch = Inr (h @ [D], r, None) \<and>
        take (length magicString) (drop i (bytes_of (h @ [D]) r)) =
          ?P @ replicate (length magicString - len patch) (CHR '' '') \<and>
        i + length magicString \<le> j \<and>
        occurs_at (bytes_of (h @ [D]) r) magicString j \<and>
        drop j (bytes_of (h @ [D]) r) = drop j ?C"
    using run d1 apart d3 d2 by (simp only: R simp_thms)
  then show ?thesis by blast
qed

theorem Patch_first_occurrence_only_witness:
  "valid [''ab'' @ magicString @ ''cd'' @ magicString, ''hello''] (Slice 0 0 266 266) \<and>
   valid [''ab'' @ magicString @ ''cd'' @ magicString, ''hello''] (Slice 1 0 5 5) \<and>
   first_at (bytes_of [''ab'' @ magicString @ ''cd'' @ magicString, ''hello''] (Slice 0 0 266 266))
     magicString 2 \<and>
   occurs_at (bytes_of [''ab'' @ magicString @ ''cd'' @ magicString, ''hello''] (Slice 0 0 266 266))
     magicString 135 \<and>
   (135::nat) \<noteq> 2 \<and> 0 < len (Slice 1 0 5 5) \<and> len (Slice 1 0 5 5) \<le> length magicString \<and>
   (\<exists>h' r. Patch [''ab'' @ magicString @ ''cd'' @ magicString, ''hello''] (Slice 0 0 266 266)
              (Slice 1 0 5 5) = Inr (h', r, None) \<and>
      take (length magicString) (drop 2 (bytes_of h' r)) =
        bytes_of [''ab'' @ magicString @ ''cd'' @ magicString, ''hello''] (Slice 1 0 5 5) @
        replicate (length magicString - len (Slice 1 0 5 5)) (CHR '' '') \<and>
      occurs_at (bytes_of h' r) magicString 135)"
proof -
  let ?h = "[''ab'' @ magicString @ ''cd'' @ magicString, ''hello'']"
  have vc: "valid ?h (Slice 0 0 266 266)" by (simp add: length_magicString)
  have vp: "valid ?h (Slice 1 0 5 5)" by simp
  have "Index (bytes_of ?h (Slice 0 0 266 266)) magicString = int 2" by code_simp
  then have f: "first_at (bytes_of ?h (Slice 0 0 266 266)) magicString 2"
    by (simp only: first_at_Index)
  have o: "occurs_at (bytes_of ?h (Slice 0 0 266 266)) magicString 135" by code_simp
  have n: "(135::nat) \<noteq> 2" by simp
  have p: "0 < len (Slice 1 0 5 5)" by simp
  have l: "len (Slice 1 0 5 5) \<le> length magicString" by (simp add: length_magicString)
  from Patch_first_occurrence_only [OF vc vp f o n p l] vc vp f o n p l
  show ?thesis by blast
qed

section \<open>The registry\<close>

lemma Patch_keeps_bytes:
  assumes "valid h content" and "valid h patch" and "valid h s"
    and "Patch h content patch = Inr (h', r, e)"
  shows "bytes_of h' s = bytes_of h s"
  using assms(1,2)
proof (cases rule: Patch_outcomes)
  case noop
  with assms(4) show ?thesis by simp
next
  case too_long
  with assms(4) show ?thesis by simp
next
  case (patching i)
  with assms(4) have "h' = h @ [patched (bytes_of h content) i (bytes_of h patch)]" by simp
  then show ?thesis using assms(3) by (simp only: bytes_of_append)
qed

text \<open>
  C9. \<open>Files\<close> has exactly seven names: \<open>undionly.kpxe\<close> for the BIOS x86
  binary, \<open>ipxe.efi\<close> for the UEFI x86 binary, \<open>snp.efi\<close> for the UEFI ARM
  binary, \<open>ipxe.iso\<close> for the ISO image, and for each of three boards the
  board's name followed by \<open>.dtb\<close>, for its device tree. The slice a name gives
  is fixed, and a call of \<open>Patch\<close>, on any slices of the store, leaves the bytes
  that every registered slice shows as they were: a later lookup gives the same
  content.
\<close>

theorem Files_fixed:
  "dom (Files e) =
     {''undionly.kpxe'', ''ipxe.efi'', ''snp.efi'', ''ipxe.iso''} \<union>
     (\<lambda>board. board @ ''.dtb'') `
       {''rk3588-rock-5b'', ''rk3566-orangepi-3b'', ''meson-sm1-odroid-hc4''} \<and>
   card (dom (Files e)) = 7 \<and>
   Files e ''undionly.kpxe'' = Some (Undionly e) \<and>
   Files e ''ipxe.efi'' = Some (IpxeEFI e) \<and>
   Files e ''snp.efi'' = Some (SNP e) \<and>
   Files e ''ipxe.iso'' = Some (IpxeISO e) \<and>
   Files e ''rk3588-rock-5b.dtb'' = Some (DTBRock5b e) \<and>
   Files e ''rk3566-orangepi-3b.dtb'' = Some (DTBOrangePi3b e) \<and>
   Files e ''meson-sm1-odroid-hc4.dtb'' = Some (DTBOdroidHC4 e) \<and>
   (\<forall>name s h content patch h' r err.
      Files e name = Some s \<and> valid h s \<and> valid h content \<and> valid h patch \<and>
      Patch h content patch = Inr (h', r, err) \<longrightarrow>
        bytes_of h' s = bytes_of h s)"
proof -
  have d: "dom (Files e) =
     {''undionly.kpxe'', ''ipxe.efi'', ''snp.efi'', ''ipxe.iso''} \<union>
     (\<lambda>board. board @ ''.dtb'') `
       {''rk3588-rock-5b'', ''rk3566-orangepi-3b'', ''meson-sm1-odroid-hc4''}"
    by (simp add: Files_def insert_commute)
  have c: "card (dom (Files e)) = 7" by (simp add: Files_def)
  have l: "Files e ''undionly.kpxe'' = Some (Undionly e)"
    "Files e ''ipxe.efi'' = Some (IpxeEFI e)"
    "Files e ''snp.efi'' = Some (SNP e)"
    "Files e ''ipxe.iso'' = Some (IpxeISO e)"
    "Files e ''rk3588-rock-5b.dtb'' = Some (DTBRock5b e)"
    "Files e ''rk3566-orangepi-3b.dtb'' = Some (DTBOrangePi3b e)"
    "Files e ''meson-sm1-odroid-hc4.dtb'' = Some (DTBOdroidHC4 e)"
    by (simp_all add: Files_def)
  have k: "\<forall>name s h content patch h' r err.
      Files e name = Some s \<and> valid h s \<and> valid h content \<and> valid h patch \<and>
      Patch h content patch = Inr (h', r, err) \<longrightarrow>
        bytes_of h' s = bytes_of h s"
    using Patch_keeps_bytes by blast
  from d c l k show ?thesis by (intro conjI)
qed

theorem Files_fixed_witness:
  "Files \<lparr>IpxeEFI = Slice 0 0 135 135, Undionly = Slice 2 0 3 3, SNP = Slice 2 0 3 3,
          IpxeISO = Slice 2 0 3 3, DTBRock5b = Slice 2 0 3 3, DTBOrangePi3b = Slice 2 0 3 3,
          DTBOdroidHC4 = Slice 2 0 3 3\<rparr> ''ipxe.efi'' = Some (Slice 0 0 135 135) \<and>
   valid [''ab'' @ magicString @ ''cd'', ''hello'', ''dtb''] (Slice 0 0 135 135) \<and>
   valid [''ab'' @ magicString @ ''cd'', ''hello'', ''dtb''] (Slice 1 0 5 5) \<and>
   Patch [''ab'' @ magicString @ ''cd'', ''hello'', ''dtb''] (Slice 0 0 135 135) (Slice 1 0 5 5) =
     Inr ([''ab'' @ magicString @ ''cd'', ''hello'', ''dtb'',
           ''ab'' @ ''hello'' @ replicate 126 (CHR '' '') @ ''cd''],
          Slice 3 0 135 135, None) \<and>
   bytes_of [''ab'' @ magicString @ ''cd'', ''hello'', ''dtb'',
             ''ab'' @ ''hello'' @ replicate 126 (CHR '' '') @ ''cd''] (Slice 0 0 135 135) =
     bytes_of [''ab'' @ magicString @ ''cd'', ''hello'', ''dtb''] (Slice 0 0 135 135)"
proof -
  let ?e = "\<lparr>IpxeEFI = Slice 0 0 135 135, Undionly = Slice 2 0 3 3, SNP = Slice 2 0 3 3,
          IpxeISO = Slice 2 0 3 3, DTBRock5b = Slice 2 0 3 3, DTBOrangePi3b = Slice 2 0 3 3,
          DTBOdroidHC4 = Slice 2 0 3 3\<rparr>"
  let ?h = "[''ab'' @ magicString @ ''cd'', ''hello'', ''dtb'']"
  let ?h' = "[''ab'' @ magicString @ ''cd'', ''hello'', ''dtb'',
              ''ab'' @ ''hello'' @ replicate 126 (CHR '' '') @ ''cd'']"
  have f: "Files ?e ''ipxe.efi'' = Some (Slice 0 0 135 135)" by (simp add: Files_def)
  have vc: "valid ?h (Slice 0 0 135 135)" by (simp add: length_magicString)
  have vp: "valid ?h (Slice 1 0 5 5)" by simp
  have run: "Patch ?h (Slice 0 0 135 135) (Slice 1 0 5 5) = Inr (?h', Slice 3 0 135 135, None)"
    by code_simp
  from Files_fixed [of ?e] f vc vp run
  have "bytes_of ?h' (Slice 0 0 135 135) = bytes_of ?h (Slice 0 0 135 135)" by blast
  with f vc vp run show ?thesis by (intro conjI)
qed

end
